theory Spec2Isabelle
  imports Main "HOL-Library.AList"
begin

section \<open>Distance Vector routing: a model of script.py\<close>

text \<open>
  The class \<^verbatim>\<open>Network\<close> keeps three attributes: the list \<^verbatim>\<open>nodes\<close>, the
  dictionary \<^verbatim>\<open>graph\<close> (node to neighbour to link cost) and the dictionary
  \<^verbatim>\<open>routing_tables\<close> (node to destination to (cost, next hop)).

  Python dictionaries keep insertion order and the loops of \<^verbatim>\<open>update_routing\<close>
  run in that order, so a dictionary is an association list: a lookup is \<open>map_of\<close>,
  an item assignment \<^verbatim>\<open>d[k] = v\<close> is \<open>AList.update k v d\<close> (the value is replaced in
  place when the key is there, the pair is appended otherwise).

  Link costs are Python integers (\<open>int\<close>). A recorded cost is either an integer or
  the float \<^verbatim>\<open>float('inf')\<close>, the only float of the program.
\<close>

subsection \<open>Costs\<close>

datatype cost = Fin int | Inf

datatype error = KeyError | OverflowError

text \<open>
  Python compares an integer with \<^verbatim>\<open>float('inf')\<close> exactly: every integer is
  below it, and it is not below itself.
\<close>

instantiation cost :: linorder
begin

fun less_eq_cost :: "cost \<Rightarrow> cost \<Rightarrow> bool" where
  "less_eq_cost (Fin a) (Fin b) = (a \<le> b)"
| "less_eq_cost (Fin a) Inf = True"
| "less_eq_cost Inf (Fin b) = False"
| "less_eq_cost Inf Inf = True"

fun less_cost :: "cost \<Rightarrow> cost \<Rightarrow> bool" where
  "less_cost (Fin a) (Fin b) = (a < b)"
| "less_cost (Fin a) Inf = True"
| "less_cost Inf (Fin b) = False"
| "less_cost Inf Inf = False"

instance
proof
  fix x y z :: cost
  show "(x < y) = (x \<le> y \<and> \<not> y \<le> x)"
    by (cases x; cases y) auto
  show "x \<le> x"
    by (cases x) auto
  show "x \<le> y \<Longrightarrow> y \<le> z \<Longrightarrow> x \<le> z"
    by (cases x; cases y; cases z) auto
  show "x \<le> y \<Longrightarrow> y \<le> x \<Longrightarrow> x = y"
    by (cases x; cases y) auto
  show "x \<le> y \<or> y \<le> x"
    by (cases x; cases y) auto
qed

end

text \<open>
  \<^verbatim>\<open>cost + current_cost\<close>, with \<^verbatim>\<open>cost\<close> an integer. Two integers add exactly.
  When \<^verbatim>\<open>current_cost\<close> is \<^verbatim>\<open>float('inf')\<close> Python first converts the integer to a
  double: the sum is \<^verbatim>\<open>inf\<close> when the integer rounds to a finite double, and the
  conversion raises \<^verbatim>\<open>OverflowError\<close> otherwise, that is from
  \<open>2 ^ 1024 - 2 ^ 970\<close> on in absolute value (the midpoint between the largest
  double and \<open>2 ^ 1024\<close>, which rounds up).
\<close>

definition float_limit :: int where
  "float_limit = 2 ^ 1024 - 2 ^ 970"

definition fits_float :: "int \<Rightarrow> bool" where
  "fits_float c = (\<bar>c\<bar> < float_limit)"

fun py_add :: "int \<Rightarrow> cost \<Rightarrow> error + cost" where
  "py_add c (Fin d) = Inr (Fin (c + d))"
| "py_add c Inf = (if fits_float c then Inr Inf else Inl OverflowError)"

subsection \<open>The engine's state\<close>

type_synonym 'n entry = "cost \<times> 'n option"

record 'n network =
  nodes :: "'n list"
  graph :: "('n \<times> ('n \<times> int) list) list"
  routing_tables :: "('n \<times> ('n \<times> 'n entry) list) list"

text \<open>
  A dictionary comprehension \<^verbatim>\<open>{k: f(k) for k in ks}\<close> assigns the items in the
  order of \<^verbatim>\<open>ks\<close>; a key that comes twice keeps its first position.
\<close>

definition dict_comp :: "('k \<Rightarrow> 'v) \<Rightarrow> 'k list \<Rightarrow> ('k \<times> 'v) list" where
  "dict_comp f ks = foldl (\<lambda>d k. AList.update k (f k) d) [] ks"

text \<open>\<^verbatim>\<open>__init__\<close>: no link, every entry \<^verbatim>\<open>(inf, None)\<close>.\<close>

definition init :: "'n list \<Rightarrow> 'n network" where
  "init ns =
     \<lparr> nodes = ns,
       graph = dict_comp (\<lambda>node. []) ns,
       routing_tables = dict_comp (\<lambda>node. dict_comp (\<lambda>n. (Inf, None)) ns) ns \<rparr>"

text \<open>
  A call either returns, or raises and leaves the state it had reached: the
  result is \<open>Inl (e, s)\<close> for the exception \<open>e\<close> raised in state \<open>s\<close>, and
  \<open>Inr\<close> of the state (and the returned value) otherwise.
\<close>

type_synonym ('n, 'a) outcome = "(error \<times> 'n network) + 'a"

text \<open>
  \<^verbatim>\<open>self.graph[a][b] = c\<close>: the subscription \<^verbatim>\<open>self.graph[a]\<close> raises
  \<^verbatim>\<open>KeyError\<close> when \<^verbatim>\<open>a\<close> is no key of the graph.
\<close>

definition set_link :: "'n \<Rightarrow> 'n \<Rightarrow> int \<Rightarrow> 'n network \<Rightarrow> ('n, 'n network) outcome" where
  "set_link a b c s =
     (case map_of (graph s) a of
        None \<Rightarrow> Inl (KeyError, s)
      | Some d \<Rightarrow> Inr (s\<lparr>graph := AList.update a (AList.update b c d) (graph s)\<rparr>))"

text \<open>
  \<^verbatim>\<open>add_link\<close>: the two assignments, one after the other; the second one is
  not reached when the first one raises.
\<close>

definition add_link :: "'n \<Rightarrow> 'n \<Rightarrow> int \<Rightarrow> 'n network \<Rightarrow> ('n, 'n network) outcome" where
  "add_link node1 node2 c s =
     (case set_link node1 node2 c s of
        Inl e \<Rightarrow> Inl e
      | Inr s1 \<Rightarrow> set_link node2 node1 c s1)"

text \<open>
  A \<^verbatim>\<open>for\<close> loop whose body may raise: the loop stops at the first exception.
\<close>

fun for_loop :: "('a \<Rightarrow> 'st \<Rightarrow> 'e + 'st) \<Rightarrow> 'a list \<Rightarrow> 'st \<Rightarrow> 'e + 'st" where
  "for_loop body [] st = Inr st"
| "for_loop body (x # xs) st =
     (case body x st of Inl e \<Rightarrow> Inl e | Inr st' \<Rightarrow> for_loop body xs st')"

text \<open>\<^verbatim>\<open>self.routing_tables[node][dest] = v\<close>\<close>

definition set_entry :: "'n \<Rightarrow> 'n \<Rightarrow> 'n entry \<Rightarrow> 'n network \<Rightarrow> ('n, 'n network) outcome" where
  "set_entry node dest v s =
     (case map_of (routing_tables s) node of
        None \<Rightarrow> Inl (KeyError, s)
      | Some t \<Rightarrow>
          Inr (s\<lparr>routing_tables := AList.update node (AList.update dest v t) (routing_tables s)\<rparr>))"

text \<open>\<^verbatim>\<open>initialize_tables\<close>\<close>

definition initialize_tables :: "'n network \<Rightarrow> ('n, 'n network) outcome" where
  "initialize_tables s =
     for_loop (\<lambda>node. set_entry node node (Fin 0, Some node)) (nodes s) s"

text \<open>Reading \<^verbatim>\<open>self.routing_tables[a][b]\<close> and \<^verbatim>\<open>self.graph[a][b]\<close>.\<close>

definition entry :: "'n network \<Rightarrow> 'n \<Rightarrow> 'n \<Rightarrow> 'n entry option" where
  "entry s a b =
     (case map_of (routing_tables s) a of None \<Rightarrow> None | Some t \<Rightarrow> map_of t b)"

definition link :: "'n network \<Rightarrow> 'n \<Rightarrow> 'n \<Rightarrow> int option" where
  "link s a b =
     (case map_of (graph s) a of None \<Rightarrow> None | Some d \<Rightarrow> map_of d b)"

text \<open>
  \<^verbatim>\<open>update_routing\<close>. The innermost body, for one \<^verbatim>\<open>dest\<close> of the neighbour's
  table: the items of a dictionary are read when the iteration reaches them, so
  \<^verbatim>\<open>current_cost\<close> is the neighbour's entry in the current state (it matters when
  a node is its own neighbour). The keys of a table do not change during the
  call, so the first \<open>None\<close> branch is never taken from a loop over these keys.
\<close>

definition dest_body ::
  "'n \<Rightarrow> 'n \<Rightarrow> int \<Rightarrow> 'n \<Rightarrow> 'n network \<times> bool \<Rightarrow> ('n, 'n network \<times> bool) outcome" where
  "dest_body node neighbor c dest st =
     (case st of (s, updated) \<Rightarrow>
        (case entry s neighbor dest of
           None \<Rightarrow> Inl (KeyError, s)
         | Some (current_cost, _) \<Rightarrow>
             (case py_add c current_cost of
                Inl e \<Rightarrow> Inl (e, s)
              | Inr new_cost \<Rightarrow>
                  (case entry s node dest of
                     None \<Rightarrow> Inl (KeyError, s)
                   | Some (best, _) \<Rightarrow>
                       if new_cost < best
                       then (case set_entry node dest (new_cost, Some neighbor) s of
                               Inl e \<Rightarrow> Inl e
                             | Inr s' \<Rightarrow> Inr (s', True))
                       else Inr (s, updated)))))"

definition neighbor_body ::
  "'n \<Rightarrow> 'n \<times> int \<Rightarrow> 'n network \<times> bool \<Rightarrow> ('n, 'n network \<times> bool) outcome" where
  "neighbor_body node item st =
     (case item of (neighbor, c) \<Rightarrow>
        (case map_of (routing_tables (fst st)) neighbor of
           None \<Rightarrow> Inl (KeyError, fst st)
         | Some t \<Rightarrow> for_loop (dest_body node neighbor c) (map fst t) st))"

definition node_body ::
  "'n \<Rightarrow> 'n network \<times> bool \<Rightarrow> ('n, 'n network \<times> bool) outcome" where
  "node_body node st =
     (case map_of (graph (fst st)) node of
        None \<Rightarrow> Inl (KeyError, fst st)
      | Some d \<Rightarrow> for_loop (neighbor_body node) d st)"

definition update_routing :: "'n network \<Rightarrow> ('n, 'n network \<times> bool) outcome" where
  "update_routing s = for_loop node_body (nodes s) (s, False)"

text \<open>
  \<^verbatim>\<open>simulate\<close>, without the printing. The loop has no bound, so it is a partial
  function: \<open>None\<close> is a loop that never ends. The result keeps the final
  state and the counter \<^verbatim>\<open>iteration\<close>, the number of calls of
  \<^verbatim>\<open>update_routing\<close> that returned \<^verbatim>\<open>True\<close>.
\<close>

partial_function (option) simulate_loop ::
  "nat \<Rightarrow> 'n network \<Rightarrow> ('n, 'n network \<times> nat) outcome option" where
  "simulate_loop iteration s =
     (case update_routing s of
        Inl e \<Rightarrow> Some (Inl e)
      | Inr (s', updated) \<Rightarrow>
          if \<not> updated then Some (Inr (s', iteration))
          else simulate_loop (iteration + 1) s')"

declare simulate_loop.simps [code]

definition simulate :: "'n network \<Rightarrow> ('n, 'n network \<times> nat) outcome option" where
  "simulate s =
     (case initialize_tables s of
        Inl e \<Rightarrow> Some (Inl e)
      | Inr s0 \<Rightarrow> simulate_loop 0 s0)"

text \<open>The state a call leaves behind, whether it returned or raised.\<close>

definition left_by :: "('n, 'n network \<times> bool) outcome \<Rightarrow> 'n network" where
  "left_by r = (case r of Inl (e, s) \<Rightarrow> s | Inr (s, b) \<Rightarrow> s)"

text \<open>The state \<^verbatim>\<open>add_link\<close> or \<^verbatim>\<open>initialize_tables\<close> leaves behind.\<close>

definition state_of :: "('n, 'n network) outcome \<Rightarrow> 'n network" where
  "state_of r = (case r of Inl (e, s) \<Rightarrow> s | Inr s \<Rightarrow> s)"

text \<open>
  A sequence of \<^verbatim>\<open>add_link\<close> calls, as the script makes them after building
  the network; an exception ends the sequence.
\<close>

fun add_links :: "('n \<times> 'n \<times> int) list \<Rightarrow> 'n network \<Rightarrow> ('n, 'n network) outcome" where
  "add_links [] s = Inr s"
| "add_links ((node1, node2, c) # ls) s =
     (case add_link node1 node2 c s of Inl e \<Rightarrow> Inl e | Inr s' \<Rightarrow> add_links ls s')"

text \<open>The state after \<open>k\<close> calls of \<^verbatim>\<open>update_routing\<close>, whatever they returned.\<close>

definition after_rounds :: "nat \<Rightarrow> 'n network \<Rightarrow> 'n network" where
  "after_rounds k s = ((\<lambda>s. left_by (update_routing s)) ^^ k) s"

subsection \<open>Example networks\<close>

text \<open>
  Three nodes in a line, A - B - C with both links of cost 1, built and
  initialised; \<open>line3_converged\<close> is the state the simulation ends in.
\<close>

definition line3 :: "string network" where
  "line3 =
     \<lparr> nodes = [''A'', ''B'', ''C''],
       graph = [(''A'', [(''B'', 1)]), (''B'', [(''A'', 1), (''C'', 1)]), (''C'', [(''B'', 1)])],
       routing_tables =
         [(''A'', [(''A'', (Fin 0, Some ''A'')), (''B'', (Inf, None)), (''C'', (Inf, None))]),
          (''B'', [(''A'', (Inf, None)), (''B'', (Fin 0, Some ''B'')), (''C'', (Inf, None))]),
          (''C'', [(''A'', (Inf, None)), (''B'', (Inf, None)), (''C'', (Fin 0, Some ''C''))])] \<rparr>"

definition line3_converged :: "string network" where
  "line3_converged =
     \<lparr> nodes = [''A'', ''B'', ''C''],
       graph = [(''A'', [(''B'', 1)]), (''B'', [(''A'', 1), (''C'', 1)]), (''C'', [(''B'', 1)])],
       routing_tables =
         [(''A'', [(''A'', (Fin 0, Some ''A'')), (''B'', (Fin 1, Some ''B'')), (''C'', (Fin 2, Some ''B''))]),
          (''B'', [(''A'', (Fin 1, Some ''A'')), (''B'', (Fin 0, Some ''B'')), (''C'', (Fin 1, Some ''C''))]),
          (''C'', [(''A'', (Fin 2, Some ''B'')), (''B'', (Fin 1, Some ''B'')), (''C'', (Fin 0, Some ''C''))])] \<rparr>"


text \<open>
  The network of the script: eight nodes and twelve links. \<open>network8\<close> is the
  module-level object after the \<^verbatim>\<open>add_link\<close> calls, \<open>network8_converged\<close> the
  state in which \<^verbatim>\<open>simulate\<close> ends.
\<close>

definition nodes8 :: "string list" where
  "nodes8 = [''A'', ''B'', ''C'', ''D'', ''E'', ''F'', ''G'', ''H'']"

definition links8 :: "(string \<times> string \<times> int) list" where
  "links8 =
     [(''A'', ''B'', 2), (''A'', ''D'', 6), (''A'', ''E'', 3), (''B'', ''E'', 1),
      (''B'', ''C'', 2), (''C'', ''E'', 3), (''C'', ''H'', 1), (''D'', ''E'', 2),
      (''E'', ''F'', 3), (''E'', ''H'', 4), (''F'', ''G'', 2), (''G'', ''H'', 2)]"

definition graph8 :: "(string \<times> (string \<times> int) list) list" where
  "graph8 =
         [(''A'', [(''B'', 2), (''D'', 6), (''E'', 3)]),
          (''B'', [(''A'', 2), (''E'', 1), (''C'', 2)]),
          (''C'', [(''B'', 2), (''E'', 3), (''H'', 1)]),
          (''D'', [(''A'', 6), (''E'', 2)]),
          (''E'', [(''A'', 3), (''B'', 1), (''C'', 3), (''D'', 2), (''F'', 3), (''H'', 4)]),
          (''F'', [(''E'', 3), (''G'', 2)]),
          (''G'', [(''F'', 2), (''H'', 2)]),
          (''H'', [(''C'', 1), (''E'', 4), (''G'', 2)])]"

definition network8 :: "string network" where
  "network8 = (init nodes8)\<lparr>graph := graph8\<rparr>"

definition network8_converged :: "string network" where
  "network8_converged =
     \<lparr> nodes = nodes8,
       graph = graph8,
       routing_tables =
         [(''A'',
            [(''A'', (Fin 0, Some ''A'')), (''B'', (Fin 2, Some ''B'')), (''C'', (Fin 4, Some ''B'')), (''D'', (Fin 5, Some ''E'')),
             (''E'', (Fin 3, Some ''E'')), (''F'', (Fin 6, Some ''E'')), (''G'', (Fin 7, Some ''B'')), (''H'', (Fin 5, Some ''B''))]),
          (''B'',
            [(''A'', (Fin 2, Some ''A'')), (''B'', (Fin 0, Some ''B'')), (''C'', (Fin 2, Some ''C'')), (''D'', (Fin 3, Some ''E'')),
             (''E'', (Fin 1, Some ''E'')), (''F'', (Fin 4, Some ''E'')), (''G'', (Fin 5, Some ''C'')), (''H'', (Fin 3, Some ''C''))]),
          (''C'',
            [(''A'', (Fin 4, Some ''B'')), (''B'', (Fin 2, Some ''B'')), (''C'', (Fin 0, Some ''C'')), (''D'', (Fin 5, Some ''B'')),
             (''E'', (Fin 3, Some ''B'')), (''F'', (Fin 5, Some ''H'')), (''G'', (Fin 3, Some ''H'')), (''H'', (Fin 1, Some ''H''))]),
          (''D'',
            [(''A'', (Fin 5, Some ''E'')), (''B'', (Fin 3, Some ''E'')), (''C'', (Fin 5, Some ''E'')), (''D'', (Fin 0, Some ''D'')),
             (''E'', (Fin 2, Some ''E'')), (''F'', (Fin 5, Some ''E'')), (''G'', (Fin 7, Some ''E'')), (''H'', (Fin 6, Some ''E''))]),
          (''E'',
            [(''A'', (Fin 3, Some ''A'')), (''B'', (Fin 1, Some ''B'')), (''C'', (Fin 3, Some ''B'')), (''D'', (Fin 2, Some ''D'')),
             (''E'', (Fin 0, Some ''E'')), (''F'', (Fin 3, Some ''F'')), (''G'', (Fin 5, Some ''F'')), (''H'', (Fin 4, Some ''C''))]),
          (''F'',
            [(''A'', (Fin 6, Some ''E'')), (''B'', (Fin 4, Some ''E'')), (''C'', (Fin 5, Some ''G'')), (''D'', (Fin 5, Some ''E'')),
             (''E'', (Fin 3, Some ''E'')), (''F'', (Fin 0, Some ''F'')), (''G'', (Fin 2, Some ''G'')), (''H'', (Fin 4, Some ''G''))]),
          (''G'',
            [(''A'', (Fin 7, Some ''H'')), (''B'', (Fin 5, Some ''H'')), (''C'', (Fin 3, Some ''H'')), (''D'', (Fin 7, Some ''F'')),
             (''E'', (Fin 5, Some ''F'')), (''F'', (Fin 2, Some ''F'')), (''G'', (Fin 0, Some ''G'')), (''H'', (Fin 2, Some ''H''))]),
          (''H'',
            [(''A'', (Fin 5, Some ''C'')), (''B'', (Fin 3, Some ''C'')), (''C'', (Fin 1, Some ''C'')), (''D'', (Fin 6, Some ''E'')),
             (''E'', (Fin 4, Some ''C'')), (''F'', (Fin 4, Some ''G'')), (''G'', (Fin 2, Some ''G'')), (''H'', (Fin 0, Some ''H''))])] \<rparr>"

text \<open>
  A disconnected network: A and B are linked, C has no link. \<open>island3\<close> is the
  state before the simulation, \<open>island3_converged\<close> the state it ends in.
\<close>

definition island3 :: "string network" where
  "island3 =
     \<lparr> nodes = [''A'', ''B'', ''C''],
       graph = [(''A'', [(''B'', 1)]), (''B'', [(''A'', 1)]), (''C'', [])],
       routing_tables =
         [(''A'', [(''A'', (Inf, None)), (''B'', (Inf, None)), (''C'', (Inf, None))]),
          (''B'', [(''A'', (Inf, None)), (''B'', (Inf, None)), (''C'', (Inf, None))]),
          (''C'', [(''A'', (Inf, None)), (''B'', (Inf, None)), (''C'', (Inf, None))])] \<rparr>"

definition island3_converged :: "string network" where
  "island3_converged =
     \<lparr> nodes = [''A'', ''B'', ''C''],
       graph = [(''A'', [(''B'', 1)]), (''B'', [(''A'', 1)]), (''C'', [])],
       routing_tables =
         [(''A'', [(''A'', (Fin 0, Some ''A'')), (''B'', (Fin 1, Some ''B'')), (''C'', (Inf, None))]),
          (''B'', [(''A'', (Fin 1, Some ''A'')), (''B'', (Fin 0, Some ''B'')), (''C'', (Inf, None))]),
          (''C'', [(''A'', (Inf, None)), (''B'', (Inf, None)), (''C'', (Fin 0, Some ''C''))])] \<rparr>"

subsection \<open>Auxiliary notions\<close>

text \<open>
  One assignment of the innermost loop of \<^verbatim>\<open>update_routing\<close>: for a node, one
  of the items \<open>(neighbor, c)\<close> of its graph entry and a destination, the
  candidate cost is strictly below the recorded one and replaces it.
\<close>

inductive relax_step :: "'n network \<Rightarrow> 'n network \<Rightarrow> bool" where
  relax: "map_of (graph s) node = Some d \<Longrightarrow> (neighbor, c) \<in> set d \<Longrightarrow>
     entry s neighbor dest = Some (cur, h) \<Longrightarrow> py_add c cur = Inr new_cost \<Longrightarrow>
     entry s node dest = Some (best, h') \<Longrightarrow> new_cost < best \<Longrightarrow>
     set_entry node dest (new_cost, Some neighbor) s = Inr s' \<Longrightarrow> relax_step s s'"

abbreviation relaxed :: "'n network \<Rightarrow> 'n network \<Rightarrow> bool" where
  "relaxed \<equiv> relax_step\<^sup>*\<^sup>*"

text \<open>
  The states an engine can be in: built by \<^verbatim>\<open>__init__\<close>, then any sequence of
  calls of the three methods. A call that raises leaves its state behind (a
  caller may catch the exception and go on). The parameter \<open>P\<close> restricts the
  link costs passed to \<^verbatim>\<open>add_link\<close>.
\<close>

inductive reachable :: "(int \<Rightarrow> bool) \<Rightarrow> 'n network \<Rightarrow> bool" for P where
  r_init: "reachable P (init ns)"
| r_add_link: "reachable P s \<Longrightarrow> P c \<Longrightarrow> reachable P (state_of (add_link node1 node2 c s))"
| r_initialize: "reachable P s \<Longrightarrow> reachable P (state_of (initialize_tables s))"
| r_update: "reachable P s \<Longrightarrow> reachable P (left_by (update_routing s))"

text \<open>
  The shape of the dictionaries: the graph and the routing tables have the
  nodes as keys, every table has the nodes as keys, and no neighbour is listed
  twice (a Python dictionary holds a key once).
\<close>

definition keys_ok :: "'n network \<Rightarrow> bool" where
  "keys_ok s \<longleftrightarrow>
     (\<forall>a. (map_of (graph s) a \<noteq> None) = (a \<in> set (nodes s))) \<and>
     (\<forall>a. (map_of (routing_tables s) a \<noteq> None) = (a \<in> set (nodes s))) \<and>
     (\<forall>a t. map_of (routing_tables s) a = Some t \<longrightarrow> fst ` set t = set (nodes s)) \<and>
     (\<forall>a d. map_of (graph s) a = Some d \<longrightarrow> distinct (map fst d))"

text \<open>Every link cost of the graph satisfies \<open>P\<close>.\<close>

definition costs_sat :: "(int \<Rightarrow> bool) \<Rightarrow> 'n network \<Rightarrow> bool" where
  "costs_sat P s \<longleftrightarrow> (\<forall>a d b c. map_of (graph s) a = Some d \<longrightarrow> (b, c) \<in> set d \<longrightarrow> P c)"

text \<open>Every neighbour is a node.\<close>

definition closed :: "'n network \<Rightarrow> bool" where
  "closed s \<longleftrightarrow> (\<forall>a d. map_of (graph s) a = Some d \<longrightarrow> fst ` set d \<subseteq> set (nodes s))"

text \<open>The keys of \<^verbatim>\<open>self.graph[n]\<close>: the direct neighbours of \<open>n\<close>.\<close>

definition neighbors :: "'n network \<Rightarrow> 'n \<Rightarrow> 'n list" where
  "neighbors s n = (case map_of (graph s) n of None \<Rightarrow> [] | Some d \<Rightarrow> map fst d)"

text \<open>No recorded cost is negative.\<close>

definition entries_nonneg :: "'n network \<Rightarrow> bool" where
  "entries_nonneg s \<longleftrightarrow> (\<forall>a b c h. entry s a b = Some (Fin c, h) \<longrightarrow> 0 \<le> c)"

text \<open>
  Walks in the graph, independently of the routing tables: a walk is the list of
  the nodes it visits, its cost is the sum of the costs of its links, and
  \<open>None\<close> says that two consecutive nodes are not linked.
\<close>

fun walk_cost :: "'n network \<Rightarrow> 'n list \<Rightarrow> int option" where
  "walk_cost s (u # v # vs) =
     (case link s u v of
        None \<Rightarrow> None
      | Some c \<Rightarrow> (case walk_cost s (v # vs) of None \<Rightarrow> None | Some w \<Rightarrow> Some (c + w)))"
| "walk_cost s vs = Some 0"

definition walk :: "'n network \<Rightarrow> 'n \<Rightarrow> 'n \<Rightarrow> 'n list \<Rightarrow> int \<Rightarrow> bool" where
  "walk s a b ws w \<longleftrightarrow> ws \<noteq> [] \<and> hd ws = a \<and> last ws = b \<and> walk_cost s ws = Some w"

text \<open>\<open>\<delta>\<close> is the shortest-path distance from \<open>a\<close> to \<open>b\<close>.\<close>

definition shortest :: "'n network \<Rightarrow> 'n \<Rightarrow> 'n \<Rightarrow> int \<Rightarrow> bool" where
  "shortest s a b \<delta> \<longleftrightarrow> (\<exists>ws. walk s a b ws \<delta>) \<and> (\<forall>ws w. walk s a b ws w \<longrightarrow> \<delta> \<le> w)"

text \<open>
  The test of the innermost loop fails for a node, a neighbour with its link
  cost and a destination: all lookups succeed, the sum is computed and the
  candidate is not strictly below the recorded cost. A state is \<open>stable\<close> when
  this holds for every triple the three loops visit.
\<close>

definition settled :: "'n network \<Rightarrow> 'n \<Rightarrow> 'n \<Rightarrow> int \<Rightarrow> 'n \<Rightarrow> bool" where
  "settled s node neighbor c dest =
     (case entry s neighbor dest of
        None \<Rightarrow> False
      | Some (current_cost, _) \<Rightarrow>
          (case py_add c current_cost of
             Inl e \<Rightarrow> False
           | Inr new_cost \<Rightarrow>
               (case entry s node dest of
                  None \<Rightarrow> False
                | Some (best, _) \<Rightarrow> \<not> new_cost < best)))"

definition stable :: "'n network \<Rightarrow> bool" where
  "stable s =
     (\<forall>node\<in>set (nodes s).
        case map_of (graph s) node of
          None \<Rightarrow> False
        | Some d \<Rightarrow>
            (\<forall>(neighbor, c)\<in>set d.
               case map_of (routing_tables s) neighbor of
                 None \<Rightarrow> False
               | Some t \<Rightarrow> (\<forall>dest\<in>set (map fst t). settled s node neighbor c dest)))"

text \<open>
  Some walk leads from \<open>a\<close> to \<open>b\<close>; and every entry that is not
  \<^verbatim>\<open>(inf, None)\<close> is between two nodes joined by a walk.
\<close>

definition joined :: "'n network \<Rightarrow> 'n \<Rightarrow> 'n \<Rightarrow> bool" where
  "joined s a b \<longleftrightarrow> (\<exists>ws w. walk s a b ws w)"

definition entries_joined :: "'n network \<Rightarrow> bool" where
  "entries_joined s \<longleftrightarrow> (\<forall>a b v. entry s a b = Some v \<longrightarrow> v = (Inf, None) \<or> joined s a b)"

text \<open>
  Two invariants of a running simulation. \<open>sound\<close>: a finite recorded cost comes
  with a next hop and is the cost of some walk. \<open>hops_tight\<close>: for a destination
  other than the node itself, the recorded cost is at least the cost of the
  link to the next hop plus what the next hop records.
\<close>

definition sound :: "'n network \<Rightarrow> bool" where
  "sound s \<longleftrightarrow>
     (\<forall>a b v h. entry s a b = Some (Fin v, h) \<longrightarrow> h \<noteq> None \<and> (\<exists>ws. walk s a b ws v))"

definition hops_tight :: "'n network \<Rightarrow> bool" where
  "hops_tight s \<longleftrightarrow>
     (\<forall>a b x m. a \<noteq> b \<longrightarrow> entry s a b = Some (x, Some m) \<longrightarrow>
        (\<exists>c v h. link s a m = Some c \<and> entry s m b = Some (Fin v, h) \<and> Fin (c + v) \<le> x))"

text \<open>
  What holds of an engine whose links have non-negative costs, once it has been
  initialised and while rounds are run.
\<close>

definition running :: "'n network \<Rightarrow> bool" where
  "running s \<longleftrightarrow>
     keys_ok s \<and> closed s \<and> costs_sat (\<lambda>c. 0 \<le> c) s \<and> entries_nonneg s \<and>
     sound s \<and> hops_tight s \<and> (\<forall>a\<in>set (nodes s). entry s a a = Some (Fin 0, Some a))"

section \<open>Properties\<close>

subsection \<open>A round that reports no change\<close>

lemma left_by_simps [simp]:
  "left_by (Inl (e, s)) = s" "left_by (Inr (s, b)) = s"
  by (simp_all add: left_by_def)

lemma for_loop_quiet:
  assumes "\<And>x st s'. x \<in> set xs \<Longrightarrow> body x st = Inr (s', False) \<Longrightarrow> st = (s', False)"
    and "for_loop body xs st = Inr (s', False)"
  shows "st = (s', False) \<and> (\<forall>x\<in>set xs. body x (s', False) = Inr (s', False))"
  using assms
proof (induction xs arbitrary: st)
  case Nil
  then show ?case by simp
next
  case (Cons x xs)
  from Cons.prems(2) obtain st1 where b: "body x st = Inr st1"
    and r: "for_loop body xs st1 = Inr (s', False)"
    by (auto split: sum.splits)
  have "st1 = (s', False) \<and> (\<forall>y\<in>set xs. body y (s', False) = Inr (s', False))"
    using Cons.IH [OF _ r] Cons.prems(1) by auto
  moreover from this b have "st = (s', False)"
    using Cons.prems(1) [of x st s'] by simp
  ultimately show ?case using b by auto
qed

lemma set_entry_Inr:
  "set_entry node dest v s = Inr s' \<Longrightarrow>
     graph s' = graph s \<and> nodes s' = nodes s \<and>
     (\<forall>a b. entry s' a b = (if a = node \<and> b = dest then Some v else entry s a b))"
  by (auto simp: set_entry_def entry_def AList.update_conv' split: option.splits if_splits)

lemma set_entry_Inl:
  "set_entry node dest v s = Inl (e, s') \<Longrightarrow> s' = s"
  by (auto simp: set_entry_def split: option.splits)

lemma dest_body_quiet:
  "dest_body node neighbor c dest st = Inr (s', False) \<Longrightarrow> st = (s', False)"
  by (auto simp: dest_body_def split: prod.splits option.splits sum.splits if_splits)

lemma neighbor_body_quiet:
  "neighbor_body node item st = Inr (s', False) \<Longrightarrow> st = (s', False)"
  unfolding neighbor_body_def
  by (auto split: prod.splits option.splits dest: for_loop_quiet [rotated] dest_body_quiet)

lemma node_body_quiet:
  "node_body node st = Inr (s', False) \<Longrightarrow> st = (s', False)"
  unfolding node_body_def
  by (auto split: option.splits dest: for_loop_quiet [rotated] neighbor_body_quiet)

lemma update_routing_False_same:
  "update_routing s = Inr (s', False) \<Longrightarrow> s' = s"
  unfolding update_routing_def
  by (auto dest: for_loop_quiet [rotated] node_body_quiet)

text \<open>
  C6. In every state in which \<^verbatim>\<open>update_routing\<close> returns \<^verbatim>\<open>False\<close>, the call
  has left the whole state as it was (every entry of every routing table), and
  calling it again from the resulting state returns \<^verbatim>\<open>False\<close> again with the
  state unchanged.
\<close>

theorem fixed_point_idempotent:
  "update_routing s = Inr (s', False) \<Longrightarrow>
     s' = s \<and> update_routing s' = Inr (s', False)"
  using update_routing_False_same [of s s'] by simp

theorem fixed_point_idempotent_witness:
  "update_routing line3_converged = Inr (line3_converged, False) \<and>
   line3_converged = line3_converged \<and>
   update_routing line3_converged = Inr (line3_converged, False)"
proof -
  have h: "update_routing line3_converged = Inr (line3_converged, False)"
    by code_simp
  show ?thesis
    using h fixed_point_idempotent [OF h] by simp
qed

subsection \<open>A round is a sequence of single assignments\<close>

lemma relax_step_graph: "relax_step s s' \<Longrightarrow> graph s' = graph s \<and> nodes s' = nodes s"
  by (auto elim!: relax_step.cases dest: set_entry_Inr)

lemma relaxed_graph: "relaxed s s' \<Longrightarrow> graph s' = graph s \<and> nodes s' = nodes s"
  by (induction rule: rtranclp_induct) (auto dest: relax_step_graph)

lemma for_loop_relaxed:
  assumes "\<And>x st. x \<in> set xs \<Longrightarrow> graph (fst st) = g \<Longrightarrow> relaxed (fst st) (left_by (body x st))"
    and "graph (fst st) = g"
  shows "relaxed (fst st) (left_by (for_loop body xs st))"
  using assms
proof (induction xs arbitrary: st)
  case Nil
  then show ?case by (cases st) simp
next
  case (Cons x xs)
  have step: "relaxed (fst st) (left_by (body x st))"
    using Cons.prems by simp
  show ?case
  proof (cases "body x st")
    case (Inl e)
    with step show ?thesis by simp
  next
    case (Inr st1)
    with step have r1: "relaxed (fst st) (fst st1)" by (cases st1) simp
    then have "graph (fst st1) = g" using Cons.prems(2) by (simp add: relaxed_graph)
    then have "relaxed (fst st1) (left_by (for_loop body xs st1))"
      using Cons.IH [of st1] Cons.prems(1) by simp
    with r1 Inr show ?thesis by simp
  qed
qed

lemma set_entry_ok:
  "entry s node dest = Some x \<Longrightarrow> \<exists>s'. set_entry node dest v s = Inr s'"
  by (auto simp: set_entry_def entry_def split: option.splits)

lemma set_entry_not_Inl:
  "set_entry node dest v s = Inl e \<Longrightarrow> entry s node dest = Some x \<Longrightarrow> False"
  by (auto simp: set_entry_def entry_def split: option.splits)

lemma dest_body_relaxed:
  assumes "map_of (graph (fst st)) node = Some d" "(neighbor, c) \<in> set d"
  shows "relaxed (fst st) (left_by (dest_body node neighbor c dest st))"
proof (cases st)
  case (Pair s updated)
  show ?thesis
    using assms unfolding Pair dest_body_def
    by (auto split: option.splits sum.splits prod.splits
        dest: set_entry_not_Inl
        intro!: r_into_rtranclp relax_step.relax)
qed

lemma neighbor_body_relaxed:
  assumes "map_of (graph (fst st)) node = Some d" "item \<in> set d"
  shows "relaxed (fst st) (left_by (neighbor_body node item st))"
proof (cases item)
  case (Pair neighbor c)
  show ?thesis
  proof (cases "map_of (routing_tables (fst st)) neighbor")
    case None
    then show ?thesis by (simp add: neighbor_body_def Pair)
  next
    case (Some t)
    have "relaxed (fst st) (left_by (for_loop (dest_body node neighbor c) (map fst t) st))"
    proof (rule for_loop_relaxed [where g = "graph (fst st)"])
      fix x and st' :: "'a network \<times> bool"
      assume "graph (fst st') = graph (fst st)"
      then show "relaxed (fst st') (left_by (dest_body node neighbor c x st'))"
        using assms Pair by (intro dest_body_relaxed [where d = d]) auto
    qed simp
    with Some show ?thesis by (simp add: neighbor_body_def Pair)
  qed
qed

lemma node_body_relaxed:
  "relaxed (fst st) (left_by (node_body node st))"
proof (cases "map_of (graph (fst st)) node")
  case None
  then show ?thesis by (simp add: node_body_def)
next
  case (Some d)
  have "relaxed (fst st) (left_by (for_loop (neighbor_body node) d st))"
  proof (rule for_loop_relaxed [where g = "graph (fst st)"])
    fix x and st' :: "'a network \<times> bool"
    assume "x \<in> set d" "graph (fst st') = graph (fst st)"
    then show "relaxed (fst st') (left_by (neighbor_body node x st'))"
      using Some by (intro neighbor_body_relaxed [where d = d]) auto
  qed simp
  with Some show ?thesis by (simp add: node_body_def)
qed

lemma update_routing_relaxed: "relaxed s (left_by (update_routing s))"
  unfolding update_routing_def
  using for_loop_relaxed [where body = node_body and st = "(s, False)" and g = "graph s" and xs = "nodes s"]
  by (simp add: node_body_relaxed)

subsection \<open>The shape of the dictionaries\<close>

lemma state_of_simps [simp]: "state_of (Inl (e, s)) = s" "state_of (Inr s) = s"
  by (simp_all add: state_of_def)

lemma map_of_foldl_update:
  "map_of (foldl (\<lambda>d k. AList.update k (f k) d) d0 ks) k =
     (if k \<in> set ks then Some (f k) else map_of d0 k)"
  by (induction ks arbitrary: d0) (auto simp: AList.update_conv')

lemma map_of_dict_comp:
  "map_of (dict_comp f ks) k = (if k \<in> set ks then Some (f k) else None)"
  by (simp add: dict_comp_def map_of_foldl_update)

lemma keys_foldl_update:
  "fst ` set (foldl (\<lambda>d k. AList.update k (f k) d) d0 ks) = fst ` set d0 \<union> set ks"
  by (induction ks arbitrary: d0) (auto simp: AList.dom_update)

lemma keys_dict_comp: "fst ` set (dict_comp f ks) = set ks"
  using keys_foldl_update [of f "[]" ks] by (simp add: dict_comp_def)

lemma keys_ok_init: "keys_ok (init ns)"
  by (auto simp: keys_ok_def init_def map_of_dict_comp keys_dict_comp split: if_splits)


lemma costs_sat_init: "costs_sat P (init ns)"
  by (auto simp: costs_sat_def init_def map_of_dict_comp split: if_splits)

lemma entry_init:
  "entry (init ns) a b = (if a \<in> set ns \<and> b \<in> set ns then Some (Inf, None) else None)"
  by (simp add: entry_def init_def map_of_dict_comp)

lemma set_update_subset:
  "set (AList.update k v al) \<subseteq> insert (k, v) (set al)"
  by (induction al) auto

lemma set_link_frame:
  "routing_tables (state_of (set_link a b c s)) = routing_tables s \<and>
   nodes (state_of (set_link a b c s)) = nodes s \<and>
   (\<forall>x. (map_of (graph (state_of (set_link a b c s))) x \<noteq> None) = (map_of (graph s) x \<noteq> None))"
  by (auto simp: set_link_def AList.update_conv' split: option.splits)

lemma set_link_graph:
  assumes "map_of (graph (state_of (set_link a b c s))) x = Some d'"
  shows "\<exists>d. map_of (graph s) x = Some d \<and> set d' \<subseteq> insert (b, c) (set d) \<and>
             fst ` set d' = (if x = a then insert b (fst ` set d) else fst ` set d) \<and>
             (distinct (map fst d) \<longrightarrow> distinct (map fst d'))"
proof (cases "map_of (graph s) a")
  case None
  with assms show ?thesis by (auto simp: set_link_def)
next
  case (Some d1)
  show ?thesis
  proof (cases "x = a")
    case True
    with assms Some have "d' = AList.update b c d1"
      by (simp add: set_link_def AList.update_conv')
    with True Some show ?thesis
      using set_update_subset [of b c d1]
      by (simp add: AList.dom_update AList.distinct_update)
  next
    case False
    with assms Some show ?thesis
      by (auto simp: set_link_def AList.update_conv')
  qed
qed

lemma add_link_frame:
  "routing_tables (state_of (add_link n1 n2 c s)) = routing_tables s \<and>
   nodes (state_of (add_link n1 n2 c s)) = nodes s \<and>
   (\<forall>x. (map_of (graph (state_of (add_link n1 n2 c s))) x \<noteq> None) = (map_of (graph s) x \<noteq> None))"
proof (cases "set_link n1 n2 c s")
  case (Inl e)
  then show ?thesis
    using set_link_frame [of n1 n2 c s] by (simp add: add_link_def)
next
  case (Inr s1)
  then show ?thesis
    using set_link_frame [of n1 n2 c s] set_link_frame [of n2 n1 c s1]
    by (simp add: add_link_def)
qed

lemma add_link_graph:
  assumes "map_of (graph (state_of (add_link n1 n2 c s))) x = Some d'"
  shows "\<exists>d. map_of (graph s) x = Some d \<and> set d' \<subseteq> set d \<union> {(n1, c), (n2, c)} \<and>
             fst ` set d \<subseteq> fst ` set d' \<and> fst ` set d' \<subseteq> fst ` set d \<union> {n1, n2} \<and>
             (distinct (map fst d) \<longrightarrow> distinct (map fst d'))"
proof (cases "set_link n1 n2 c s")
  case (Inl e)
  then have "state_of (add_link n1 n2 c s) = state_of (set_link n1 n2 c s)"
    by (simp add: add_link_def)
  with assms set_link_graph [of n1 n2 c s x d'] show ?thesis
    by (auto split: if_splits)
next
  case (Inr s1)
  then have "state_of (add_link n1 n2 c s) = state_of (set_link n2 n1 c s1)"
    by (simp add: add_link_def)
  with assms obtain d1 where d1: "map_of (graph s1) x = Some d1"
    "set d' \<subseteq> insert (n1, c) (set d1)"
    "fst ` set d' = (if x = n2 then insert n1 (fst ` set d1) else fst ` set d1)"
    "distinct (map fst d1) \<longrightarrow> distinct (map fst d')"
    using set_link_graph [of n2 n1 c s1 x d'] by auto
  from Inr d1(1) have "map_of (graph (state_of (set_link n1 n2 c s))) x = Some d1" by simp
  then obtain d where d: "map_of (graph s) x = Some d"
    "set d1 \<subseteq> insert (n2, c) (set d)"
    "fst ` set d1 = (if x = n1 then insert n2 (fst ` set d) else fst ` set d)"
    "distinct (map fst d) \<longrightarrow> distinct (map fst d1)"
    using set_link_graph [of n1 n2 c s x d1] by auto
  from d1 d show ?thesis by (auto split: if_splits)
qed

lemma keys_ok_add_link:
  assumes "keys_ok s"
  shows "keys_ok (state_of (add_link n1 n2 c s))"
proof -
  let ?s' = "state_of (add_link n1 n2 c s)"
  have f: "routing_tables ?s' = routing_tables s" "nodes ?s' = nodes s"
    "\<And>x. (map_of (graph ?s') x \<noteq> None) = (map_of (graph s) x \<noteq> None)"
    using add_link_frame [of n1 n2 c s] by simp_all
  have d: "distinct (map fst d')" if "map_of (graph ?s') a = Some d'" for a d'
    using add_link_graph [OF that] assms by (auto simp: keys_ok_def)
  have 1: "\<forall>a. (map_of (graph ?s') a \<noteq> None) = (a \<in> set (nodes ?s'))"
    using assms by (simp only: f keys_ok_def) simp
  have 2: "\<forall>a. (map_of (routing_tables ?s') a \<noteq> None) = (a \<in> set (nodes ?s'))"
    using assms by (simp only: f keys_ok_def) simp
  have 3: "\<forall>a t. map_of (routing_tables ?s') a = Some t \<longrightarrow> fst ` set t = set (nodes ?s')"
    using assms by (simp only: f keys_ok_def) simp
  from 1 2 3 d show ?thesis
    unfolding keys_ok_def by (intro conjI allI impI) auto
qed

lemma costs_sat_add_link:
  assumes "costs_sat P s" "P c"
  shows "costs_sat P (state_of (add_link n1 n2 c s))"
  unfolding costs_sat_def
proof (intro allI impI)
  fix a d' b c'
  assume "map_of (graph (state_of (add_link n1 n2 c s))) a = Some d'" "(b, c') \<in> set d'"
  then obtain d where "map_of (graph s) a = Some d" "(b, c') \<in> set d \<union> {(n1, c), (n2, c)}"
    using add_link_graph [of n1 n2 c s a d'] by auto
  with assms show "P c'" by (auto simp: costs_sat_def)
qed



text \<open>Loops over item assignments.\<close>

lemma for_loop_state_inv:
  assumes "\<And>x s. x \<in> set xs \<Longrightarrow> Q s \<Longrightarrow> Q (state_of (body x s))" "Q s"
  shows "Q (state_of (for_loop body xs s))"
  using assms
proof (induction xs arbitrary: s)
  case Nil
  then show ?case by simp
next
  case (Cons x xs)
  have q: "Q (state_of (body x s))" using Cons.prems by simp
  show ?case
  proof (cases "body x s")
    case (Inl e)
    with q show ?thesis by (cases e) simp
  next
    case (Inr s1)
    with q Cons show ?thesis by simp
  qed
qed

lemma set_entry_state:
  "state_of (set_entry node dest v s) = s \<or> set_entry node dest v s = Inr (state_of (set_entry node dest v s))"
  by (auto simp: set_entry_def split: option.splits)

lemma set_entry_keys_ok:
  assumes "keys_ok s" "dest \<in> set (nodes s)"
  shows "keys_ok (state_of (set_entry node dest v s))"
proof (cases "map_of (routing_tables s) node")
  case None
  with assms show ?thesis by (simp add: set_entry_def)
next
  case (Some t)
  then have "state_of (set_entry node dest v s) =
      s\<lparr>routing_tables := AList.update node (AList.update dest v t) (routing_tables s)\<rparr>"
    by (simp add: set_entry_def)
  with assms Some show ?thesis
    by (auto simp: keys_ok_def AList.update_conv' AList.dom_update split: if_splits)
qed

lemma keys_ok_initialize: "keys_ok s \<Longrightarrow> keys_ok (state_of (initialize_tables s))"
  unfolding initialize_tables_def
proof (rule for_loop_state_inv [where Q = "\<lambda>s'. keys_ok s' \<and> nodes s' = nodes s", THEN conjunct1])
  fix x s' assume "x \<in> set (nodes s)" "keys_ok s' \<and> nodes s' = nodes s"
  then show "keys_ok (state_of (set_entry x x (Fin 0, Some x) s')) \<and>
         nodes (state_of (set_entry x x (Fin 0, Some x) s')) = nodes s"
    using set_entry_keys_ok [of s' x x] set_entry_state [of x x "(Fin 0, Some x)" s']
    by (auto dest: set_entry_Inr)
qed simp

lemma relax_step_keys_ok: "relax_step s s' \<Longrightarrow> keys_ok s \<Longrightarrow> keys_ok s'"
proof (induction rule: relax_step.induct)
  case (relax s node d neighbor c dest cur h new_cost best h' s')
  from relax(5) obtain t where t: "map_of (routing_tables s) node = Some t" "map_of t dest = Some (best, h')"
    by (auto simp: entry_def split: option.splits)
  from t(2) have "dest \<in> fst ` set t"
    by (metis map_of_SomeD fst_conv image_eqI)
  with t(1) relax(8) have "dest \<in> set (nodes s)"
    by (simp add: keys_ok_def)
  with relax(7,8) show ?case
    using set_entry_keys_ok [of s dest node "(new_cost, Some neighbor)"] by simp
qed

lemma relaxed_keys_ok: "relaxed s s' \<Longrightarrow> keys_ok s \<Longrightarrow> keys_ok s'"
  by (induction rule: rtranclp_induct) (auto dest: relax_step_keys_ok)

lemma reachable_keys_ok: "reachable P s \<Longrightarrow> keys_ok s"
proof (induction rule: reachable.induct)
  case (r_init ns)
  show ?case by (rule keys_ok_init)
next
  case (r_add_link s c node1 node2)
  then show ?case by (simp add: keys_ok_add_link)
next
  case (r_initialize s)
  then show ?case by (simp add: keys_ok_initialize)
next
  case (r_update s)
  then show ?case using relaxed_keys_ok [OF update_routing_relaxed [of s]] by simp
qed

subsection \<open>Costs only go down\<close>

lemma relax_step_entry:
  assumes "relax_step s s'" "entry s a b = Some (c, h)"
  shows "\<exists>c' h'. entry s' a b = Some (c', h') \<and> ((c', h') = (c, h) \<or> c' < c)"
  using assms
proof (induction rule: relax_step.induct)
  case (relax s node d neighbor c0 dest cur h0 new_cost best h' s')
  from set_entry_Inr [OF relax(7)]
  have e: "entry s' a b = (if a = node \<and> b = dest then Some (new_cost, Some neighbor) else entry s a b)"
    by simp
  show ?case
  proof (cases "a = node \<and> b = dest")
    case True
    with relax(5,6,8) e show ?thesis by auto
  next
    case False
    with relax(8) e show ?thesis by auto
  qed
qed

lemma relaxed_entry:
  assumes "relaxed s s'" "entry s a b = Some (c, h)"
  shows "\<exists>c' h'. entry s' a b = Some (c', h') \<and> ((c', h') = (c, h) \<or> c' < c)"
  using assms
proof (induction rule: rtranclp_induct)
  case base
  then show ?case by simp
next
  case (step y z)
  then obtain c1 h1 where 1: "entry y a b = Some (c1, h1)" "(c1, h1) = (c, h) \<or> c1 < c"
    by blast
  from relax_step_entry [OF step(2) 1(1)] obtain c2 h2 where
    2: "entry z a b = Some (c2, h2)" "(c2, h2) = (c1, h1) \<or> c2 < c1"
    by blast
  from 1(2) 2(2) have "(c2, h2) = (c, h) \<or> c2 < c" by auto
  with 2(1) show ?case by blast
qed

text \<open>
  C5. For every state and every (source, destination) pair with an entry, the
  cost recorded after one call of \<^verbatim>\<open>update_routing\<close> (whether it returned or
  raised) is at most the cost recorded before it, and the entry is either the
  same or strictly cheaper.
\<close>

theorem costs_never_increase:
  "entry s source destination = Some (c, h) \<Longrightarrow>
     \<exists>c' h'. entry (left_by (update_routing s)) source destination = Some (c', h') \<and>
       c' \<le> c \<and> ((c', h') = (c, h) \<or> c' < c)"
  using relaxed_entry [OF update_routing_relaxed, of s source destination c h] by auto

text \<open>The witness of C5, on the three-node line.\<close>

theorem costs_never_increase_witness:
  "entry line3 ''A'' ''B'' = Some (Inf, None) \<and>
   (\<exists>c' h'. entry (left_by (update_routing line3)) ''A'' ''B'' = Some (c', h') \<and>
       c' \<le> Inf \<and> ((c', h') = (Inf, None) \<or> c' < Inf))"
proof -
  have h: "entry line3 ''A'' ''B'' = Some (Inf, None)"
    by (simp add: entry_def line3_def)
  show ?thesis
    using h costs_never_increase [OF h] by simp
qed

subsection \<open>Next hops\<close>

lemma neighbors_add_link:
  "set (neighbors s a) \<subseteq> set (neighbors (state_of (add_link n1 n2 c s)) a)"
proof (cases "map_of (graph (state_of (add_link n1 n2 c s))) a")
  case None
  then have "map_of (graph s) a = None"
    using add_link_frame [of n1 n2 c s] by blast
  then show ?thesis by (simp add: neighbors_def)
next
  case (Some d')
  from add_link_graph [OF Some] obtain d where "map_of (graph s) a = Some d" "fst ` set d \<subseteq> fst ` set d'"
    by blast
  with Some show ?thesis by (simp add: neighbors_def)
qed

lemma initialize_frame:
  "graph (state_of (initialize_tables s)) = graph s \<and>
   nodes (state_of (initialize_tables s)) = nodes s \<and>
   (\<forall>a b. entry (state_of (initialize_tables s)) a b = entry s a b \<or>
          a = b \<and> entry (state_of (initialize_tables s)) a b = Some (Fin 0, Some a))"
  unfolding initialize_tables_def
proof (rule for_loop_state_inv [where Q = "\<lambda>s'. graph s' = graph s \<and> nodes s' = nodes s \<and>
      (\<forall>a b. entry s' a b = entry s a b \<or> a = b \<and> entry s' a b = Some (Fin 0, Some a))"])
  fix x s'
  assume q: "graph s' = graph s \<and> nodes s' = nodes s \<and>
      (\<forall>a b. entry s' a b = entry s a b \<or> a = b \<and> entry s' a b = Some (Fin 0, Some a))"
  let ?s = "state_of (set_entry x x (Fin 0, Some x) s')"
  from set_entry_state [of x x "(Fin 0, Some x)" s']
  show "graph ?s = graph s \<and> nodes ?s = nodes s \<and>
      (\<forall>a b. entry ?s a b = entry s a b \<or> a = b \<and> entry ?s a b = Some (Fin 0, Some a))"
  proof
    assume "?s = s'"
    with q show ?thesis by simp
  next
    assume "set_entry x x (Fin 0, Some x) s' = Inr ?s"
    from set_entry_Inr [OF this] q show ?thesis by auto
  qed
qed simp

text \<open>
  C9. In every state reachable by \<^verbatim>\<open>__init__\<close>, \<^verbatim>\<open>add_link\<close>,
  \<^verbatim>\<open>initialize_tables\<close> and \<^verbatim>\<open>update_routing\<close>, for every node \<open>N\<close> and
  destination \<open>D \<noteq> N\<close>, a recorded next hop \<open>M\<close> that is not \<^verbatim>\<open>None\<close> is a key
  of \<^verbatim>\<open>graph[N]\<close>, a direct neighbour of \<open>N\<close>.
\<close>

theorem next_hop_is_neighbor:
  assumes "reachable (\<lambda>c. True) s" "N \<noteq> D" "entry s N D = Some (c, Some M)"
  shows "M \<in> set (neighbors s N)"
  using assms
proof (induction arbitrary: c M rule: reachable.induct)
  case (r_init ns)
  then show ?case by (simp add: entry_init split: if_splits)
next
  case (r_add_link s c' node1 node2)
  from r_add_link.prems have "entry s N D = Some (c, Some M)"
    using add_link_frame [of node1 node2 c' s] by (simp add: entry_def)
  then have "M \<in> set (neighbors s N)" using r_add_link by blast
  then show ?case using neighbors_add_link [of s N node1 node2 c'] by blast
next
  case (r_initialize s)
  from r_initialize.prems initialize_frame [of s]
  have "entry s N D = Some (c, Some M)" by metis
  then have "M \<in> set (neighbors s N)" using r_initialize by blast
  then show ?case using initialize_frame [of s] by (simp add: neighbors_def)
next
  case (r_update s)
  have "relaxed s (left_by (update_routing s))" by (rule update_routing_relaxed)
  then have "\<forall>c M. entry (left_by (update_routing s)) N D = Some (c, Some M) \<longrightarrow>
      M \<in> set (neighbors (left_by (update_routing s)) N)"
  proof (induction rule: rtranclp_induct)
    case base
    then show ?case using r_update by blast
  next
    case (step y z)
    from step(2) show ?case
    proof (cases rule: relax_step.cases)
      case (relax node d neighbor c0 dest cur h new_cost best h')
      from set_entry_Inr [OF relax(7)]
      have e: "entry z N D = (if N = node \<and> D = dest then Some (new_cost, Some neighbor) else entry y N D)"
        and g: "graph z = graph y" by simp_all
      show ?thesis
      proof (cases "N = node \<and> D = dest")
        case True
        with e relax(1,2) g show ?thesis
          by (force simp: neighbors_def)
      next
        case False
        with e step(3) g show ?thesis by (simp add: neighbors_def)
      qed
    qed
  qed
  with r_update.prems show ?case by blast
qed

subsection \<open>Non-negative costs and the self entries\<close>

lemma py_add_nonneg:
  "py_add c cur = Inr (Fin v) \<Longrightarrow> \<exists>u. cur = Fin u \<and> v = c + u"
  by (cases cur) (auto split: if_splits)

lemma relax_step_costs:
  assumes "relax_step s s'"
  obtains node neighbor c dest u h b h' d where
    "map_of (graph s) node = Some d" "(neighbor, c) \<in> set d"
    "entry s neighbor dest = Some (Fin u, h)" "entry s node dest = Some (b, h')" "Fin (c + u) < b"
    "graph s' = graph s" "nodes s' = nodes s"
    "\<And>x y. entry s' x y = (if x = node \<and> y = dest then Some (Fin (c + u), Some neighbor) else entry s x y)"
  using assms
proof (cases rule: relax_step.cases)
  case (relax node d neighbor c dest cur h new_cost best h')
  from relax(6) obtain v where v: "new_cost = Fin v" by (cases new_cost; cases best) auto
  with relax(4) obtain u where u: "cur = Fin u" "v = c + u" using py_add_nonneg by blast
  from set_entry_Inr [OF relax(7)] relax v u that [of node d neighbor c dest u h best h']
  show ?thesis by simp
qed

lemma relax_step_nonneg:
  assumes "relax_step s s'" "costs_sat (\<lambda>c. 0 \<le> c) s" "entries_nonneg s"
  shows "entries_nonneg s'"
  using assms(1)
proof (rule relax_step_costs)
  fix node neighbor c dest u h b h' d
  assume a: "map_of (graph s) node = Some d" "(neighbor, c) \<in> set d"
    "entry s neighbor dest = Some (Fin u, h)"
    and e: "\<And>x y. entry s' x y = (if x = node \<and> y = dest then Some (Fin (c + u), Some neighbor) else entry s x y)"
  from a assms(2,3) have "0 \<le> c" "0 \<le> u"
    unfolding costs_sat_def entries_nonneg_def by blast+
  then show "entries_nonneg s'"
    using assms(3) unfolding entries_nonneg_def e by (auto split: if_splits)
qed

lemma relaxed_nonneg:
  assumes "relaxed s s'" "costs_sat (\<lambda>c. 0 \<le> c) s" "entries_nonneg s"
  shows "entries_nonneg s'"
  using assms
proof (induction rule: rtranclp_induct)
  case base
  then show ?case by simp
next
  case (step y z)
  moreover from step have "costs_sat (\<lambda>c. 0 \<le> c) y"
    using relaxed_graph [of s y] by (simp add: costs_sat_def)
  ultimately show ?case using relax_step_nonneg by blast
qed

lemma relaxed_costs_sat: "relaxed s s' \<Longrightarrow> costs_sat P s \<Longrightarrow> costs_sat P s'"
  using relaxed_graph [of s s'] by (simp add: costs_sat_def)

lemma relax_step_self:
  assumes "relax_step s s'" "costs_sat (\<lambda>c. 0 \<le> c) s" "entries_nonneg s"
    "entry s X X = Some (Fin 0, Some X)"
  shows "entry s' X X = Some (Fin 0, Some X)"
  using assms(1)
proof (rule relax_step_costs)
  fix node neighbor c dest u h b h' d
  assume a: "map_of (graph s) node = Some d" "(neighbor, c) \<in> set d"
    "entry s neighbor dest = Some (Fin u, h)" "entry s node dest = Some (b, h')" "Fin (c + u) < b"
    and e: "\<And>x y. entry s' x y = (if x = node \<and> y = dest then Some (Fin (c + u), Some neighbor) else entry s x y)"
  from a assms(2,3) have "0 \<le> c" "0 \<le> u"
    unfolding costs_sat_def entries_nonneg_def by blast+
  with a(4,5) assms(4) have "\<not> (X = node \<and> X = dest)" by auto
  with e assms(4) show ?thesis by auto
qed

lemma relaxed_self:
  assumes "relaxed s s'" "costs_sat (\<lambda>c. 0 \<le> c) s" "entries_nonneg s"
    "entry s X X = Some (Fin 0, Some X)"
  shows "entry s' X X = Some (Fin 0, Some X)"
  using assms
proof (induction rule: rtranclp_induct)
  case base
  then show ?case by simp
next
  case (step y z)
  then show ?case
    using relax_step_self [of y z X] relaxed_costs_sat [of s y] relaxed_nonneg [of s y] by blast
qed

lemma initialize_nonneg:
  "entries_nonneg s \<Longrightarrow> entries_nonneg (state_of (initialize_tables s))"
  unfolding entries_nonneg_def
  using initialize_frame [of s] by (metis Pair_inject cost.inject option.inject order_refl)

lemma reachable_nonneg:
  "reachable (\<lambda>c. 0 \<le> c) s \<Longrightarrow> costs_sat (\<lambda>c. 0 \<le> c) s \<and> entries_nonneg s"
proof (induction rule: reachable.induct)
  case (r_init ns)
  show ?case by (simp add: costs_sat_init entries_nonneg_def entry_init)
next
  case (r_add_link s c node1 node2)
  then show ?case
    using add_link_frame [of node1 node2 c s] costs_sat_add_link [of "\<lambda>c. 0 \<le> c" s c node1 node2]
    by (simp add: entries_nonneg_def entry_def)
next
  case (r_initialize s)
  then show ?case
    using initialize_frame [of s] initialize_nonneg [of s] by (simp add: costs_sat_def)
next
  case (r_update s)
  then show ?case
    using relaxed_nonneg [OF update_routing_relaxed [of s]] relaxed_costs_sat [OF update_routing_relaxed [of s]]
    by simp
qed

text \<open>\<^verbatim>\<open>initialize_tables\<close> returns on a well-shaped state.\<close>

lemma init_loop_returns:
  assumes "keys_ok s" "set xs \<subseteq> set (nodes s)"
  shows "\<exists>s'. for_loop (\<lambda>node. set_entry node node (Fin 0, Some node)) xs s = Inr s' \<and>
     (\<forall>a\<in>set xs. entry s' a a = Some (Fin 0, Some a)) \<and>
     (\<forall>a. entry s a a = Some (Fin 0, Some a) \<longrightarrow> entry s' a a = Some (Fin 0, Some a))"
  using assms
proof (induction xs arbitrary: s)
  case Nil
  then show ?case by simp
next
  case (Cons x xs)
  from Cons.prems have "map_of (routing_tables s) x \<noteq> None" by (simp add: keys_ok_def)
  then obtain s1 where s1: "set_entry x x (Fin 0, Some x) s = Inr s1"
    by (auto simp: set_entry_def)
  from set_entry_Inr [OF s1] have e: "nodes s1 = nodes s"
    "\<And>a b. entry s1 a b = (if a = x \<and> b = x then Some (Fin 0, Some x) else entry s a b)"
    by simp_all
  have "keys_ok s1"
    using set_entry_keys_ok [of s x x "(Fin 0, Some x)"] Cons.prems s1 by simp
  with Cons.IH [of s1] Cons.prems e(1) obtain s' where
    s': "for_loop (\<lambda>node. set_entry node node (Fin 0, Some node)) xs s1 = Inr s'"
    "\<forall>a\<in>set xs. entry s' a a = Some (Fin 0, Some a)"
    "\<forall>a. entry s1 a a = Some (Fin 0, Some a) \<longrightarrow> entry s' a a = Some (Fin 0, Some a)"
    by auto
  from s'(3) e(2) have "entry s' x x = Some (Fin 0, Some x)"
    "\<forall>a. entry s a a = Some (Fin 0, Some a) \<longrightarrow> entry s' a a = Some (Fin 0, Some a)"
    by auto
  with s1 s'(1,2) show ?case by auto
qed

lemma initialize_returns:
  assumes "keys_ok s"
  shows "\<exists>s0. initialize_tables s = Inr s0 \<and> (\<forall>a\<in>set (nodes s). entry s0 a a = Some (Fin 0, Some a))"
  using init_loop_returns [OF assms, of "nodes s"] by (auto simp: initialize_tables_def)

lemma after_rounds_Suc: "after_rounds (Suc k) s = left_by (update_routing (after_rounds k s))"
  by (simp add: after_rounds_def)

lemma after_rounds_0: "after_rounds 0 s = s"
  by (simp add: after_rounds_def)

lemma after_rounds_relaxed: "relaxed s (after_rounds k s)"
proof (induction k)
  case 0
  show ?case by (simp add: after_rounds_0)
next
  case (Suc k)
  then show ?case
    using update_routing_relaxed [of "after_rounds k s"] by (simp add: after_rounds_Suc)
qed

text \<open>
  C4. For every engine whose links all have non-negative costs,
  \<^verbatim>\<open>initialize_tables\<close> returns, and for every node \<open>X\<close> the entry
  \<^verbatim>\<open>routing_tables[X][X]\<close> is \<open>(0, X)\<close> after it and after any number of calls
  of \<^verbatim>\<open>update_routing\<close> that follow.
\<close>

theorem self_entry_invariant:
  assumes "reachable (\<lambda>c. 0 \<le> c) s" "X \<in> set (nodes s)"
  shows "\<exists>s0. initialize_tables s = Inr s0 \<and>
           (\<forall>k. entry (after_rounds k s0) X X = Some (Fin 0, Some X))"
proof -
  from initialize_returns [OF reachable_keys_ok [OF assms(1)]] assms(2)
  obtain s0 where s0: "initialize_tables s = Inr s0" "entry s0 X X = Some (Fin 0, Some X)"
    by blast
  have "reachable (\<lambda>c. 0 \<le> c) (state_of (initialize_tables s))"
    using assms(1) by (rule reachable.r_initialize)
  with s0(1) have n: "costs_sat (\<lambda>c. 0 \<le> c) s0" "entries_nonneg s0"
    using reachable_nonneg [of s0] by simp_all
  have "entry (after_rounds k s0) X X = Some (Fin 0, Some X)" for k
    using relaxed_self [OF after_rounds_relaxed n s0(2)] .
  with s0(1) show ?thesis by simp
qed

lemma reachable_add_links:
  assumes "reachable P s" "\<forall>(a, b, c)\<in>set ls. P c"
  shows "reachable P (state_of (add_links ls s))"
  using assms
proof (induction ls arbitrary: s)
  case Nil
  then show ?case by simp
next
  case (Cons l ls)
  obtain a b c where l: "l = (a, b, c)" by (cases l)
  with Cons.prems have r: "reachable P (state_of (add_link a b c s))"
    by (auto intro: reachable.r_add_link)
  show ?case
  proof (cases "add_link a b c s")
    case (Inl e)
    with r l show ?thesis by simp
  next
    case (Inr s1)
    with r l Cons show ?thesis by simp
  qed
qed

lemma reachable_after_rounds: "reachable P s \<Longrightarrow> reachable P (after_rounds k s)"
  by (induction k) (auto simp: after_rounds_0 after_rounds_Suc intro: reachable.r_update)

lemma line3_eq:
  "line3 = state_of (initialize_tables (state_of (add_links [(''A'', ''B'', 1), (''B'', ''C'', 1)] (init [''A'', ''B'', ''C'']))))"
  by code_simp

lemma line3_reachable: "P 1 \<Longrightarrow> reachable P line3"
  unfolding line3_eq
  by (intro reachable.r_initialize reachable_add_links reachable.r_init) simp

lemma line3_converged_eq: "line3_converged = after_rounds 2 line3"
  by code_simp

lemma line3_converged_reachable: "P 1 \<Longrightarrow> reachable P line3_converged"
  unfolding line3_converged_eq by (intro reachable_after_rounds line3_reachable)

text \<open>The witness of C9, on the converged three-node line.\<close>

theorem next_hop_is_neighbor_witness:
  "reachable (\<lambda>c. True) line3_converged \<and> ''A'' \<noteq> ''C'' \<and>
   entry line3_converged ''A'' ''C'' = Some (Fin 2, Some ''B'') \<and>
   ''B'' \<in> set (neighbors line3_converged ''A'')"
proof -
  have r: "reachable (\<lambda>c. True) line3_converged"
    by (rule line3_converged_reachable) simp
  have n: "''A'' \<noteq> ''C''" by simp
  have e: "entry line3_converged ''A'' ''C'' = Some (Fin 2, Some ''B'')"
    by (simp add: entry_def line3_converged_def)
  show ?thesis
    using r n e next_hop_is_neighbor [OF r n e] by simp
qed

text \<open>The witness of C4, on the three-node line.\<close>

theorem self_entry_invariant_witness:
  "reachable (\<lambda>c. 0 \<le> c) line3 \<and> ''A'' \<in> set (nodes line3) \<and>
   (\<exists>s0. initialize_tables line3 = Inr s0 \<and>
      (\<forall>k. entry (after_rounds k s0) ''A'' ''A'' = Some (Fin 0, Some ''A'')))"
proof -
  have r: "reachable (\<lambda>c. 0 \<le> c) line3"
    by (rule line3_reachable) simp
  have n: "''A'' \<in> set (nodes line3)" by (simp add: line3_def)
  show ?thesis
    using r n self_entry_invariant [OF r n] by simp
qed

subsection \<open>Linking an unknown node\<close>

lemma link_set_link:
  assumes "map_of (graph s) a \<noteq> None"
  shows "\<exists>s1. set_link a b c s = Inr s1 \<and> routing_tables s1 = routing_tables s \<and> nodes s1 = nodes s \<and>
     (\<forall>x y. link s1 x y = (if x = a \<and> y = b then Some c else link s x y)) \<and>
     (\<forall>x. (map_of (graph s1) x = None) = (map_of (graph s) x = None))"
  using assms
  by (auto simp: set_link_def link_def AList.update_conv' split: option.splits)

text \<open>
  C7, as the code has it. When \<^verbatim>\<open>node1\<close> or \<^verbatim>\<open>node2\<close> is not a node of the
  engine, \<^verbatim>\<open>add_link\<close> raises \<^verbatim>\<open>KeyError\<close> and leaves the node list and the
  routing tables as they were. When \<^verbatim>\<open>node1\<close> is unknown the whole state is
  unchanged; when \<^verbatim>\<open>node1\<close> is a node and \<^verbatim>\<open>node2\<close> is not, the first
  assignment has been made: \<^verbatim>\<open>graph[node1][node2]\<close> is the cost, and no other
  link has changed.
\<close>

theorem add_link_unknown_node:
  assumes "reachable P s" "node1 \<notin> set (nodes s) \<or> node2 \<notin> set (nodes s)"
  shows "\<exists>s'. add_link node1 node2 c s = Inl (KeyError, s') \<and>
           routing_tables s' = routing_tables s \<and> nodes s' = nodes s \<and>
           (node1 \<notin> set (nodes s) \<longrightarrow> s' = s) \<and>
           (node1 \<in> set (nodes s) \<longrightarrow>
              (\<forall>x y. link s' x y = (if x = node1 \<and> y = node2 then Some c else link s x y)))"
proof (cases "node1 \<in> set (nodes s)")
  case False
  then have "map_of (graph s) node1 = None"
    using reachable_keys_ok [OF assms(1)] by (auto simp: keys_ok_def)
  then have "add_link node1 node2 c s = Inl (KeyError, s)"
    by (simp add: add_link_def set_link_def)
  with False show ?thesis by simp
next
  case True
  with assms(2) have n2: "node2 \<notin> set (nodes s)" by simp
  have k: "keys_ok s" by (rule reachable_keys_ok [OF assms(1)])
  from True k have "map_of (graph s) node1 \<noteq> None" by (simp add: keys_ok_def)
  from link_set_link [OF this, of node2 c] obtain s1 where
    s1: "set_link node1 node2 c s = Inr s1" "routing_tables s1 = routing_tables s" "nodes s1 = nodes s"
    "\<forall>x y. link s1 x y = (if x = node1 \<and> y = node2 then Some c else link s x y)"
    "\<forall>x. (map_of (graph s1) x = None) = (map_of (graph s) x = None)"
    by blast
  from n2 k have "map_of (graph s) node2 = None" by (auto simp: keys_ok_def)
  with s1(5) have "map_of (graph s1) node2 = None" by simp
  then have "add_link node1 node2 c s = Inl (KeyError, s1)"
    using s1(1) by (simp add: add_link_def set_link_def)
  with True s1 show ?thesis by simp
qed

theorem add_link_unknown_node_witness:
  "reachable (\<lambda>c. True) line3 \<and> ''A'' \<in> set (nodes line3) \<and> ''Z'' \<notin> set (nodes line3) \<and>
   (\<exists>s'. add_link ''A'' ''Z'' 5 line3 = Inl (KeyError, s') \<and>
           routing_tables s' = routing_tables line3 \<and> nodes s' = nodes line3 \<and>
           link s' ''A'' ''Z'' = Some 5 \<and> link s' ''A'' ''B'' = link line3 ''A'' ''B'')"
proof -
  have r: "reachable (\<lambda>c. True) line3"
    by (rule line3_reachable) simp
  have n: "''A'' \<notin> set (nodes line3) \<or> ''Z'' \<notin> set (nodes line3)" by (simp add: line3_def)
  have a: "''A'' \<in> set (nodes line3)" "''Z'' \<notin> set (nodes line3)" by (simp_all add: line3_def)
  show ?thesis
    using r a add_link_unknown_node [OF r n, of 5] by auto
qed

text \<open>
  The claim C7 as stated fails: linking the node A to the unknown Z raises, and
  the topology has changed.
\<close>

theorem add_link_unknown_node_counterexample:
  "''Z'' \<notin> set (nodes line3) \<and>
   add_link ''A'' ''Z'' 5 line3 =
     Inl (KeyError, line3\<lparr>graph :=
       [(''A'', [(''B'', 1), (''Z'', 5)]), (''B'', [(''A'', 1), (''C'', 1)]), (''C'', [(''B'', 1)])]\<rparr>) \<and>
   graph (state_of (add_link ''A'' ''Z'' 5 line3)) \<noteq> graph line3"
  by (simp add: line3_def add_link_def set_link_def)

subsection \<open>Stable states\<close>



lemma dest_body_False_settled:
  "dest_body node neighbor c dest (s, False) = Inr (s', False) \<Longrightarrow> settled s node neighbor c dest"
  by (auto simp: settled_def dest_body_def split: option.splits sum.splits prod.splits if_splits)


lemma keys_ok_table:
  "keys_ok s \<Longrightarrow> a \<in> set (nodes s) \<Longrightarrow>
     \<exists>t. map_of (routing_tables s) a = Some t \<and> fst ` set t = set (nodes s)"
  unfolding keys_ok_def by blast


lemma for_loop_quiet_elem:
  assumes "\<And>x st s'. body x st = Inr (s', False) \<Longrightarrow> st = (s', False)"
    and "for_loop body xs (s, False) = Inr (s, False)" and "x \<in> set xs"
  shows "body x (s, False) = Inr (s, False)"
proof -
  have "(s, False) = (s, False) \<and> (\<forall>x\<in>set xs. body x (s, False) = Inr (s, False))"
    by (rule for_loop_quiet [OF assms(1) assms(2)])
  with assms(3) show ?thesis by simp
qed

lemma update_routing_False_stable:
  assumes "update_routing s = Inr (s', False)"
  shows "stable s"
proof -
  have s': "s' = s" using assms by (rule update_routing_False_same)
  have l0: "for_loop node_body (nodes s) (s, False) = Inr (s, False)"
    using assms unfolding update_routing_def s' .
  show ?thesis
    unfolding stable_def
  proof
    fix node assume "node \<in> set (nodes s)"
    then have nb: "node_body node (s, False) = Inr (s, False)"
      using l0 by (intro for_loop_quiet_elem [where body = node_body and xs = "nodes s"])
        (auto dest: node_body_quiet)
    then obtain d where d: "map_of (graph s) node = Some d"
      and l: "for_loop (neighbor_body node) d (s, False) = Inr (s, False)"
      by (auto simp: node_body_def split: option.splits)
    have "\<forall>(neighbor, c)\<in>set d.
               case map_of (routing_tables s) neighbor of
                 None \<Rightarrow> False
               | Some t \<Rightarrow> (\<forall>dest\<in>set (map fst t). settled s node neighbor c dest)"
    proof (clarify)
      fix neighbor c assume "(neighbor, c) \<in> set d"
      then have b: "neighbor_body node (neighbor, c) (s, False) = Inr (s, False)"
        using l by (intro for_loop_quiet_elem [where body = "neighbor_body node" and xs = d])
          (auto dest: neighbor_body_quiet)
      then obtain t where t: "map_of (routing_tables s) neighbor = Some t"
        and l2: "for_loop (dest_body node neighbor c) (map fst t) (s, False) = Inr (s, False)"
        by (auto simp: neighbor_body_def split: option.splits)
      have "settled s node neighbor c dest" if "dest \<in> set (map fst t)" for dest
      proof -
        have "dest_body node neighbor c dest (s, False) = Inr (s, False)"
          using that l2
          by (intro for_loop_quiet_elem [where body = "dest_body node neighbor c" and xs = "map fst t"])
            (auto dest: dest_body_quiet)
        then show ?thesis by (rule dest_body_False_settled)
      qed
      with t show "case map_of (routing_tables s) neighbor of
                 None \<Rightarrow> False
               | Some t \<Rightarrow> (\<forall>dest\<in>set (map fst t). settled s node neighbor c dest)"
        by simp
    qed
    with d show "case map_of (graph s) node of
          None \<Rightarrow> False
        | Some d \<Rightarrow>
            (\<forall>(neighbor, c)\<in>set d.
               case map_of (routing_tables s) neighbor of
                 None \<Rightarrow> False
               | Some t \<Rightarrow> (\<forall>dest\<in>set (map fst t). settled s node neighbor c dest))"
      by simp
  qed
qed

text \<open>What a stable state says about a node, one of its links and a destination.\<close>

lemma stable_settled:
  assumes "stable s" "keys_ok s" "node \<in> set (nodes s)" "map_of (graph s) node = Some d"
    "(neighbor, c) \<in> set d" "dest \<in> set (nodes s)"
  shows "settled s node neighbor c dest"
proof -
  from assms(1,3,4,5) obtain t where t: "map_of (routing_tables s) neighbor = Some t"
    "\<forall>dest\<in>set (map fst t). settled s node neighbor c dest"
    by (fastforce simp: stable_def split: option.splits)
  from t(1) assms(2) have "fst ` set t = set (nodes s)" by (simp add: keys_ok_def)
  with t(2) assms(6) show ?thesis by simp
qed










subsection \<open>The network of the script\<close>

lemma network8_built: "add_links links8 (init nodes8) = Inr network8"
  by code_simp

lemma network8_simulate: "simulate network8 = Some (Inr (network8_converged, 4))"
  by code_simp

text \<open>
  C3, as the code has it. On the network of the script, \<^verbatim>\<open>simulate\<close> ends after
  four rounds that report a change, and the entry of A for H is then
  \<open>(5, B)\<close>: the path A - B - C - H of cost 2 + 2 + 1.
\<close>

theorem network8_A_to_H:
  "add_links links8 (init nodes8) = Inr network8 \<and>
   simulate network8 = Some (Inr (network8_converged, 4)) \<and>
   entry network8_converged ''A'' ''H'' = Some (Fin 5, Some ''B'')"
proof -
  have "entry network8_converged ''A'' ''H'' = Some (Fin 5, Some ''B'')"
    by (simp add: entry_def network8_converged_def)
  with network8_built network8_simulate show ?thesis by simp
qed

text \<open>The claim C3 as stated fails: the recorded cost is not 6.\<close>

theorem network8_A_to_H_counterexample:
  "simulate network8 = Some (Inr (network8_converged, 4)) \<and>
   map_option fst (entry network8_converged ''A'' ''H'') \<noteq> Some (Fin 6)"
proof -
  have e: "entry network8_converged ''A'' ''H'' = Some (Fin 5, Some ''B'')"
    by (simp add: entry_def network8_converged_def)
  have "map_option fst (entry network8_converged ''A'' ''H'') \<noteq> Some (Fin 6)"
    unfolding e by simp
  with network8_simulate show ?thesis by simp
qed

subsection \<open>The simulation loop\<close>

lemma after_rounds_first:
  "after_rounds (Suc n) s = after_rounds n (left_by (update_routing s))"
  by (induction n) (simp_all add: after_rounds_def)

lemma simulate_loop_result_aux:
  assumes "simulate_loop i s0 = Some y"
  shows "\<forall>s k. y = Inr (s, k) \<longrightarrow>
     (\<exists>n. s = after_rounds n s0 \<and> k = i + n \<and> update_routing s = Inr (s, False))"
proof (rule simulate_loop.raw_induct [where P = "\<lambda>i s0 y. \<forall>s k. y = Inr (s, k) \<longrightarrow>
     (\<exists>n. s = after_rounds n s0 \<and> k = i + n \<and> update_routing s = Inr (s, False))", OF _ assms])
  fix f :: "nat \<Rightarrow> 'a network \<Rightarrow> ('a, 'a network \<times> nat) outcome option"
  fix iteration s0 y
  assume IH: "\<And>i s0 y. f i s0 = Some y \<Longrightarrow> \<forall>s k. y = Inr (s, k) \<longrightarrow>
     (\<exists>n. s = after_rounds n s0 \<and> k = i + n \<and> update_routing s = Inr (s, False))"
    and eq: "(case update_routing s0 of
        Inl e \<Rightarrow> Some (Inl e)
      | Inr (s', updated) \<Rightarrow>
          if \<not> updated then Some (Inr (s', iteration))
          else f (iteration + 1) s') = Some y"
  show "\<forall>s k. y = Inr (s, k) \<longrightarrow>
     (\<exists>n. s = after_rounds n s0 \<and> k = iteration + n \<and> update_routing s = Inr (s, False))"
  proof (intro allI impI)
    fix s k assume y: "y = Inr (s, k)"
    from eq y obtain s' updated where u: "update_routing s0 = Inr (s', updated)"
      by (auto split: sum.splits)
    show "\<exists>n. s = after_rounds n s0 \<and> k = iteration + n \<and> update_routing s = Inr (s, False)"
    proof (cases updated)
      case False
      with eq y u have "s' = s" "k = iteration" by simp_all
      moreover from u False have "update_routing s0 = Inr (s', False)" by simp
      then have "s' = s0" by (rule update_routing_False_same)
      ultimately have "s = after_rounds 0 s0 \<and> k = iteration + 0 \<and> update_routing s = Inr (s, False)"
        using u False by (simp add: after_rounds_0)
      then show ?thesis by blast
    next
      case True
      with eq y u have "f (iteration + 1) s' = Some (Inr (s, k))" by simp
      from IH [OF this] obtain n where
        n: "s = after_rounds n s'" "k = iteration + 1 + n" "update_routing s = Inr (s, False)"
        by blast
      have "after_rounds (Suc n) s0 = after_rounds n s'"
        using u by (simp add: after_rounds_first)
      with n have "s = after_rounds (Suc n) s0 \<and> k = iteration + Suc n \<and> update_routing s = Inr (s, False)"
        by simp
      then show ?thesis by blast
    qed
  qed
qed

lemma simulate_loop_result:
  assumes "simulate_loop i s0 = Some (Inr (s, k))"
  shows "\<exists>n. s = after_rounds n s0 \<and> k = i + n \<and> update_routing s = Inr (s, False)"
  using simulate_loop_result_aux [OF assms] by blast

lemma simulate_result:
  assumes "simulate t = Some (Inr (s, k))"
  shows "\<exists>s0. initialize_tables t = Inr s0 \<and> s = after_rounds k s0 \<and> update_routing s = Inr (s, False)"
proof -
  from assms obtain s0 where s0: "initialize_tables t = Inr s0" "simulate_loop 0 s0 = Some (Inr (s, k))"
    by (auto simp: simulate_def split: sum.splits)
  from simulate_loop_result [OF s0(2)] s0(1) show ?thesis by auto
qed

lemma reachable_simulate:
  assumes "reachable P t" "simulate t = Some (Inr (s, k))"
  shows "reachable P s"
proof -
  from simulate_result [OF assms(2)] obtain s0 where
    s0: "initialize_tables t = Inr s0" "s = after_rounds k s0" by blast
  have "reachable P (state_of (initialize_tables t))"
    using assms(1) by (rule reachable.r_initialize)
  with s0 show ?thesis by (simp add: reachable_after_rounds)
qed

subsection \<open>Entries and walks\<close>

lemma link_neighbors: "(\<exists>c. link s x y = Some c) = (y \<in> set (neighbors s x))"
proof (cases "map_of (graph s) x")
  case None
  then show ?thesis by (simp add: link_def neighbors_def)
next
  case (Some d)
  have "(\<exists>c. map_of d y = Some c) = (y \<in> fst ` set d)"
    using map_of_eq_None_iff [of d y] by auto
  with Some show ?thesis by (simp add: link_def neighbors_def)
qed

lemma walk_cost_mono:
  assumes "\<And>x y c. link s x y = Some c \<Longrightarrow> \<exists>c'. link s' x y = Some c'"
  shows "walk_cost s ws = Some w \<Longrightarrow> \<exists>w'. walk_cost s' ws = Some w'"
proof (induction ws arbitrary: w)
  case Nil
  show ?case by simp
next
  case (Cons u ws)
  show ?case
  proof (cases ws)
    case Nil
    then show ?thesis by simp
  next
    case (Cons v vs)
    with Cons.prems obtain c w0 where c: "link s u v = Some c" "walk_cost s ws = Some w0"
      by (auto split: option.splits)
    from Cons.IH [OF c(2)] obtain w1 where "walk_cost s' ws = Some w1" by blast
    moreover from assms [OF c(1)] obtain c' where "link s' u v = Some c'" by blast
    ultimately show ?thesis using Cons by simp
  qed
qed

lemma joined_mono:
  assumes "\<And>x y c. link s x y = Some c \<Longrightarrow> \<exists>c'. link s' x y = Some c'" "joined s a b"
  shows "joined s' a b"
proof -
  from assms(2) obtain ws w where w: "ws \<noteq> []" "hd ws = a" "last ws = b" "walk_cost s ws = Some w"
    by (auto simp: joined_def walk_def)
  then obtain w' where "walk_cost s' ws = Some w'"
    using walk_cost_mono [where s = s and s' = s' and ws = ws and w = w] assms(1) by blast
  with w show ?thesis by (auto simp: joined_def walk_def)
qed

lemma joined_refl: "joined s a a"
  unfolding joined_def walk_def by (rule exI [of _ "[a]"]) simp

lemma walk_Cons:
  assumes "link s a m = Some c" "walk s m b ws w"
  shows "walk s a b (a # ws) (c + w)"
proof -
  from assms(2) obtain vs where "ws = m # vs" by (cases ws) (auto simp: walk_def)
  with assms show ?thesis by (simp add: walk_def)
qed

lemma joined_step:
  assumes "link s a m = Some c" "joined s m b"
  shows "joined s a b"
proof -
  from assms(2) obtain ws w where "walk s m b ws w" by (auto simp: joined_def)
  from walk_Cons [OF assms(1) this] show ?thesis unfolding joined_def by blast
qed

lemma relax_step_joined:
  assumes "relax_step s s'" "entries_joined s"
  shows "entries_joined s'"
  using assms(1)
proof (rule relax_step_costs)
  fix node neighbor c dest u h b h' d
  assume a: "map_of (graph s) node = Some d" "(neighbor, c) \<in> set d"
    "entry s neighbor dest = Some (Fin u, h)" "graph s' = graph s"
    and e: "\<And>x y. entry s' x y = (if x = node \<and> y = dest then Some (Fin (c + u), Some neighbor) else entry s x y)"
  have l: "link s' = link s" using a(4) by (simp add: link_def fun_eq_iff)
  have j: "joined s' x y = joined s x y" for x y
    using joined_mono [of s s' x y] joined_mono [of s' s x y] l by auto
  from a(1,2) have "neighbor \<in> set (neighbors s node)" by (force simp: neighbors_def)
  then obtain c0 where c0: "link s node neighbor = Some c0" using link_neighbors [of s node neighbor] by blast
  from a(3) assms(2) have "joined s neighbor dest" by (auto simp: entries_joined_def)
  with c0 have "joined s node dest" by (rule joined_step)
  with assms(2) show "entries_joined s'"
    unfolding entries_joined_def e j by (auto split: if_splits)
qed

lemma link_add_link:
  assumes "link s x y = Some c"
  shows "\<exists>c'. link (state_of (add_link n1 n2 c0 s)) x y = Some c'"
proof -
  from assms have "y \<in> set (neighbors s x)" using link_neighbors [of s x y] by blast
  then have "y \<in> set (neighbors (state_of (add_link n1 n2 c0 s)) x)"
    using neighbors_add_link [of s x n1 n2 c0] by blast
  then show ?thesis using link_neighbors [of "state_of (add_link n1 n2 c0 s)" x y] by blast
qed

lemma reachable_entries_joined: "reachable P s \<Longrightarrow> entries_joined s"
proof (induction rule: reachable.induct)
  case (r_init ns)
  show ?case by (auto simp: entries_joined_def entry_init split: if_splits)
next
  case (r_add_link s c node1 node2)
  let ?s' = "state_of (add_link node1 node2 c s)"
  have e: "entry ?s' a b = entry s a b" for a b
    using add_link_frame [of node1 node2 c s] by (simp add: entry_def)
  have "joined ?s' a b" if "joined s a b" for a b
    using that by (rule joined_mono [rotated]) (rule link_add_link)
  with r_add_link.IH show ?case
    unfolding entries_joined_def e by blast
next
  case (r_initialize s)
  let ?s' = "state_of (initialize_tables s)"
  have g: "graph ?s' = graph s" using initialize_frame [of s] by simp
  have l: "link ?s' = link s" using g by (simp add: link_def fun_eq_iff)
  have j: "joined ?s' a b = joined s a b" for a b
    using joined_mono [of s ?s' a b] joined_mono [of ?s' s a b] l by auto
  show ?case
    unfolding entries_joined_def
  proof (intro allI impI)
    fix a b v assume v: "entry ?s' a b = Some v"
    from initialize_frame [of s]
    have "entry ?s' a b = entry s a b \<or> a = b \<and> entry ?s' a b = Some (Fin 0, Some a)"
      by blast
    then show "v = (Inf, None) \<or> joined ?s' a b"
    proof
      assume "entry ?s' a b = entry s a b"
      with v have "entry s a b = Some v" by simp
      with r_initialize.IH have "v = (Inf, None) \<or> joined s a b"
        unfolding entries_joined_def by blast
      then show ?thesis unfolding j .
    next
      assume "a = b \<and> entry ?s' a b = Some (Fin 0, Some a)"
      then show ?thesis using joined_refl [of ?s' a] by simp
    qed
  qed
next
  case (r_update s)
  have "relaxed s (left_by (update_routing s))" by (rule update_routing_relaxed)
  then show ?case
    using r_update.IH by (induction rule: rtranclp_induct) (auto intro: relax_step_joined)
qed

text \<open>
  C8. For every engine, when \<^verbatim>\<open>simulate\<close> (initialisation, then
  \<^verbatim>\<open>update_routing\<close> until it returns \<^verbatim>\<open>False\<close>) ends in a state \<open>s\<close>, that state
  is a fixed point, and for every pair of nodes \<open>S\<close>, \<open>D\<close> with no walk from \<open>S\<close> to
  \<open>D\<close> in the graph (nodes of different components) the entry
  \<^verbatim>\<open>routing_tables[S][D]\<close> is still \<^verbatim>\<open>(inf, None)\<close>.
\<close>

theorem unreachable_stays_infinite:
  assumes "reachable P t" "simulate t = Some (Inr (s, k))"
    "S \<in> set (nodes s)" "D \<in> set (nodes s)" "\<forall>ws w. \<not> walk s S D ws w"
  shows "update_routing s = Inr (s, False) \<and> entry s S D = Some (Inf, None)"
proof -
  have r: "reachable P s" by (rule reachable_simulate [OF assms(1,2)])
  have k: "keys_ok s" by (rule reachable_keys_ok [OF r])
  obtain t' where t': "map_of (routing_tables s) S = Some t'" "fst ` set t' = set (nodes s)"
    using keys_ok_table [OF k assms(3)] by blast
  from t'(2) assms(4) have "D \<in> fst ` set t'" by simp
  then obtain v where "map_of t' D = Some v"
    using map_of_eq_None_iff [of t' D] by auto
  with t'(1) have v: "entry s S D = Some v" by (simp add: entry_def)
  have "\<not> joined s S D" using assms(5) by (simp add: joined_def)
  with reachable_entries_joined [OF r] v have "v = (Inf, None)"
    unfolding entries_joined_def by blast
  moreover have "update_routing s = Inr (s, False)"
    using simulate_result [OF assms(2)] by blast
  ultimately show ?thesis using v by simp
qed

text \<open>The witness of C8: the node C of \<open>island3\<close> has no link.\<close>

lemma island3_reachable: "reachable (\<lambda>c. True) island3"
proof -
  have "island3 = state_of (add_link ''A'' ''B'' 1 (init [''A'', ''B'', ''C'']))"
    by code_simp
  moreover have "reachable (\<lambda>c. True) (state_of (add_link ''A'' ''B'' 1 (init [''A'', ''B'', ''C''])))"
    by (intro reachable.r_add_link reachable.r_init TrueI)
  ultimately show ?thesis by simp
qed

lemma island3_simulate: "simulate island3 = Some (Inr (island3_converged, 1))"
  by code_simp

lemma island3_no_walk: "\<not> walk island3_converged ''C'' ''A'' ws w"
proof
  assume w: "walk island3_converged ''C'' ''A'' ws w"
  then obtain vs where ws: "ws = ''C'' # vs" by (cases ws) (auto simp: walk_def)
  show False
  proof (cases vs)
    case Nil
    with w ws show False by (simp add: walk_def)
  next
    case (Cons v vs')
    have "link island3_converged ''C'' v = None"
      by (simp add: link_def island3_converged_def)
    with w ws Cons show False by (simp add: walk_def)
  qed
qed

theorem unreachable_stays_infinite_witness:
  "reachable (\<lambda>c. True) island3 \<and> simulate island3 = Some (Inr (island3_converged, 1)) \<and>
   ''C'' \<in> set (nodes island3_converged) \<and> ''A'' \<in> set (nodes island3_converged) \<and>
   update_routing island3_converged = Inr (island3_converged, False) \<and>
   entry island3_converged ''C'' ''A'' = Some (Inf, None)"
proof -
  have n: "''C'' \<in> set (nodes island3_converged)" "''A'' \<in> set (nodes island3_converged)"
    by (simp_all add: island3_converged_def)
  have nw: "\<forall>ws w. \<not> walk island3_converged ''C'' ''A'' ws w"
    using island3_no_walk by blast
  show ?thesis
    using island3_reachable island3_simulate n
      unreachable_stays_infinite [OF island3_reachable island3_simulate n nw]
    by simp
qed

end
